theory Spec2Isabelle
  imports Main
begin

section \<open>Board and cells\<close>

text \<open>
  A cell of the JavaScript board holds \<^verbatim>\<open>null\<close>, \<^verbatim>\<open>"X"\<close> or \<^verbatim>\<open>"O"\<close>; the board is an
  array of rows. \<open>None\<close> is \<^verbatim>\<open>null\<close>.
\<close>

text \<open>The marks \<^verbatim>\<open>"X"\<close> and \<^verbatim>\<open>"O"\<close>.\<close>

datatype mark = MarkX | MarkO

type_synonym cell = "mark option"

type_synonym board = "cell list list"

datatype js_error = TypeError

text \<open>\<^verbatim>\<open>Array(3).fill(null).map(() => Array(3).fill(null))\<close>\<close>

definition createEmptyBoard :: board where
  "createEmptyBoard = map (\<lambda>_. replicate 3 None) (replicate 3 (None :: cell))"

text \<open>
  \<^verbatim>\<open>xs[i]\<close> on an array: the element when \<open>i\<close> is an index of \<open>xs\<close>, \<^verbatim>\<open>undefined\<close>
  (here \<open>None\<close>) for every other integer.
\<close>

definition js_index :: "'a list \<Rightarrow> int \<Rightarrow> 'a option" where
  "js_index xs i = (if 0 \<le> i \<and> i < int (length xs) then Some (xs ! nat i) else None)"

text \<open>
  \<^verbatim>\<open>board[r][c]\<close>: reading a property of \<^verbatim>\<open>undefined\<close> throws a TypeError, which is what
  happens when \<open>r\<close> is no row. A column outside the row reads \<^verbatim>\<open>undefined\<close>; the program
  only ever tests such a value for truthiness or compares it with a mark, where it
  behaves as \<^verbatim>\<open>null\<close> does, so it is read as \<open>None\<close>.
\<close>

definition read_cell :: "board \<Rightarrow> int \<Rightarrow> int \<Rightarrow> js_error + cell" where
  "read_cell b r c =
     (case js_index b r of
        None \<Rightarrow> Inl TypeError
      | Some row \<Rightarrow> (case js_index row c of None \<Rightarrow> Inr None | Some v \<Rightarrow> Inr v))"

definition wf_board :: "board \<Rightarrow> bool" where
  "wf_board b = (length b = 3 \<and> list_all (\<lambda>row. length row = 3) b)"

section \<open>calculateWinner\<close>

type_synonym line = "(int \<times> int) list"

datatype winner_info = Winner mark line | Draw

definition lines :: "line list" where
  "lines =
    [ [(0,0), (0,1), (0,2)],
      [(1,0), (1,1), (1,2)],
      [(2,0), (2,1), (2,2)],
      [(0,0), (1,0), (2,0)],
      [(0,1), (1,1), (2,1)],
      [(0,2), (1,2), (2,2)],
      [(0,0), (1,1), (2,2)],
      [(0,2), (1,1), (2,0)] ]"

text \<open>
  The test of one line,
  \<^verbatim>\<open>board[a][b] && board[a][b] === board[c][d] && board[a][b] === board[e][f]\<close>,
  with the short-circuit order of \<^verbatim>\<open>&&\<close>: \<open>Inr (Some m)\<close> when the line is won by \<open>m\<close>,
  \<open>Inr None\<close> when the test is false.
\<close>

fun check_line :: "board \<Rightarrow> line \<Rightarrow> js_error + mark option" where
  "check_line bd [(a, b), (c, d), (e, f)] =
     (case read_cell bd a b of
        Inl err \<Rightarrow> Inl err
      | Inr None \<Rightarrow> Inr None
      | Inr (Some m) \<Rightarrow>
          (case read_cell bd c d of
             Inl err \<Rightarrow> Inl err
           | Inr v2 \<Rightarrow>
               if Some m \<noteq> v2 then Inr None
               else (case read_cell bd e f of
                       Inl err \<Rightarrow> Inl err
                     | Inr v3 \<Rightarrow> if Some m = v3 then Inr (Some m) else Inr None)))"
| "check_line bd _ = Inl TypeError"

text \<open>The \<^verbatim>\<open>for (let line of lines)\<close> loop; \<open>Inr None\<close> when it ends without a return.\<close>

fun check_lines :: "board \<Rightarrow> line list \<Rightarrow> js_error + winner_info option" where
  "check_lines bd [] = Inr None"
| "check_lines bd (l # ls) =
     (case check_line bd l of
        Inl err \<Rightarrow> Inl err
      | Inr (Some m) \<Rightarrow> Inr (Some (Winner m l))
      | Inr None \<Rightarrow> check_lines bd ls)"

text \<open>\<^verbatim>\<open>board.every(row => row.every(cell => cell))\<close>\<close>

definition every_cell :: "board \<Rightarrow> bool" where
  "every_cell bd = list_all (\<lambda>row. list_all (\<lambda>cell. cell \<noteq> None) row) bd"

text \<open>The result \<^verbatim>\<open>null\<close> is \<open>None\<close>.\<close>

definition calculateWinner :: "board \<Rightarrow> js_error + winner_info option" where
  "calculateWinner bd =
     (case check_lines bd lines of
        Inl err \<Rightarrow> Inl err
      | Inr (Some w) \<Rightarrow> Inr (Some w)
      | Inr None \<Rightarrow> if every_cell bd then Inr (Some Draw) else Inr None)"

section \<open>findBestMove\<close>

text \<open>The inner loop \<^verbatim>\<open>for (let j=0;j<3;j++)\<close> from column \<open>3 - n\<close> on, \<open>n\<close> columns to go.\<close>

fun scan_row :: "board \<Rightarrow> int \<Rightarrow> nat \<Rightarrow> js_error + (int \<times> int) option" where
  "scan_row bd i 0 = Inr None"
| "scan_row bd i (Suc n) =
     (case read_cell bd i (2 - int n) of
        Inl err \<Rightarrow> Inl err
      | Inr None \<Rightarrow> Inr (Some (i, 2 - int n))
      | Inr (Some m) \<Rightarrow> scan_row bd i n)"

text \<open>The outer loop \<^verbatim>\<open>for (let i=0;i<3;i++)\<close> from row \<open>3 - n\<close> on.\<close>

fun scan_rows :: "board \<Rightarrow> nat \<Rightarrow> js_error + (int \<times> int) option" where
  "scan_rows bd 0 = Inr None"
| "scan_rows bd (Suc n) =
     (case scan_row bd (2 - int n) 3 of
        Inl err \<Rightarrow> Inl err
      | Inr (Some mv) \<Rightarrow> Inr (Some mv)
      | Inr None \<Rightarrow> scan_rows bd n)"

definition findBestMove :: "board \<Rightarrow> js_error + (int \<times> int) option" where
  "findBestMove bd = scan_rows bd 3"

section \<open>Session state\<close>

text \<open>
  An entry of the history array, \<^verbatim>\<open>{ board, move, player }\<close>. The fields are prefixed
  because the state below has a \<open>board\<close> of its own. \<open>None\<close> is \<^verbatim>\<open>null\<close>.
\<close>

record entry =
  e_board :: board
  e_move :: "(int \<times> int) option"
  e_player :: "mark option"

datatype game_mode = Pvp | Pvc

text \<open>
  The \<^verbatim>\<open>useState\<close> variables of \<^verbatim>\<open>App\<close> that the handlers read or write. \<^verbatim>\<open>status\<close> and
  \<^verbatim>\<open>winningLine\<close> are recomputed from \<open>board\<close> and \<open>isXNext\<close> by the winner-detection
  effect and \<^verbatim>\<open>isMobile\<close> is layout; they are left out.
\<close>

record state =
  board :: board
  isXNext :: bool
  history :: "entry list"
  step :: int
  mode :: game_mode
  error :: string
  aiThinking :: bool

definition initial_entry :: entry where
  "initial_entry = \<lparr>e_board = createEmptyBoard, e_move = None, e_player = Some MarkX\<rparr>"

definition init_state :: state where
  "init_state =
     \<lparr>board = createEmptyBoard, isXNext = True, history = [initial_entry], step = 0,
      mode = Pvp, error = [], aiThinking = False\<rparr>"

text \<open>
  A handler either returns or throws. The state setters it called before throwing have
  taken effect all the same (React applies the updates a handler enqueued even when the
  handler then throws), so a throw carries the state too.
\<close>

datatype handler_result = Returned state | Threw js_error state

fun state_of :: "handler_result \<Rightarrow> state" where
  "state_of (Returned s) = s"
| "state_of (Threw err s) = s"

text \<open>\<^verbatim>\<open>xs.slice(0, e)\<close>: a negative \<open>e\<close> counts from the end, a large one is clipped.\<close>

definition js_slice0 :: "'a list \<Rightarrow> int \<Rightarrow> 'a list" where
  "js_slice0 xs e = (if e < 0 then take (nat (int (length xs) + e)) xs else take (nat e) xs)"

text \<open>\<^verbatim>\<open>xs.map((x, i) => f(i, x))\<close>\<close>

definition map_with_index :: "(int \<Rightarrow> 'a \<Rightarrow> 'b) \<Rightarrow> 'a list \<Rightarrow> 'b list" where
  "map_with_index f xs = map (\<lambda>(i, x). f (int i) x) (enumerate 0 xs)"

text \<open>
  \<^verbatim>\<open>board.map((r, i) => r.map((cell, j) => (i === row && j === col ? player : cell)))\<close>
\<close>

definition place :: "board \<Rightarrow> int \<Rightarrow> int \<Rightarrow> mark \<Rightarrow> board" where
  "place bd row col p =
     map_with_index (\<lambda>i r. map_with_index (\<lambda>j cell. if i = row \<and> j = col then Some p else cell) r) bd"

section \<open>handleCellClick\<close>

text \<open>
  The guard \<^verbatim>\<open>calculateWinner(board) || board[row][col] || (mode === "pvc" && !isXNext && !computerMove)\<close>
  is evaluated left to right; nothing has been set when one of its reads throws.
\<close>

definition handleCellClick :: "int \<Rightarrow> int \<Rightarrow> bool \<Rightarrow> state \<Rightarrow> handler_result" where
  "handleCellClick row col computerMove s =
     (case calculateWinner (board s) of
        Inl err \<Rightarrow> Threw err s
      | Inr (Some w) \<Rightarrow> Returned s
      | Inr None \<Rightarrow>
          (case read_cell (board s) row col of
             Inl err \<Rightarrow> Threw err s
           | Inr (Some m) \<Rightarrow> Returned s
           | Inr None \<Rightarrow>
               if mode s = Pvc \<and> \<not> isXNext s \<and> \<not> computerMove then Returned s
               else
                 let player = (if isXNext s then MarkX else MarkO);
                     nextBoard = place (board s) row col player;
                     nextHistory = js_slice0 (history s) (step s + 1) @
                       [\<lparr>e_board = nextBoard, e_move = Some (row, col), e_player = Some player\<rparr>]
                 in Returned (s\<lparr>board := nextBoard, history := nextHistory,
                                  step := int (length nextHistory) - 1,
                                  isXNext := \<not> isXNext s\<rparr>)))"

section \<open>jumpTo, handleReset, handleModeChange\<close>

text \<open>JavaScript's \<^verbatim>\<open>%\<close> truncates towards zero: the result has the sign of the dividend.\<close>

definition js_rem :: "int \<Rightarrow> int \<Rightarrow> int" where
  "js_rem a b = sgn a * (\<bar>a\<bar> mod \<bar>b\<bar>)"

text \<open>
  \<^verbatim>\<open>setStep(stepIdx); setBoard(history[stepIdx].board); setIsXNext(stepIdx % 2 === 0);\<close>
  The read \<^verbatim>\<open>history[stepIdx].board\<close> throws when \<open>stepIdx\<close> is no index of the history,
  after \<^verbatim>\<open>setStep\<close> has run.
\<close>

definition jumpTo :: "int \<Rightarrow> state \<Rightarrow> handler_result" where
  "jumpTo stepIdx s =
     (let s1 = s\<lparr>step := stepIdx\<rparr> in
      case js_index (history s) stepIdx of
        None \<Rightarrow> Threw TypeError s1
      | Some e \<Rightarrow> Returned (s1\<lparr>board := e_board e, isXNext := (js_rem stepIdx 2 = 0)\<rparr>))"

definition handleReset :: "state \<Rightarrow> state" where
  "handleReset s =
     s\<lparr>board := createEmptyBoard, isXNext := True, history := [initial_entry], step := 0,
       error := [], aiThinking := False\<rparr>"

definition handleModeChange :: "game_mode \<Rightarrow> state \<Rightarrow> state" where
  "handleModeChange m s = handleReset (s\<lparr>mode := m\<rparr>)"

section \<open>The computer's turn: doAIMove\<close>

text \<open>
  The value \<^verbatim>\<open>move\<close> that \<^verbatim>\<open>await getOpenAIMove(board)\<close> yields is \<^verbatim>\<open>null\<close> or an array;
  the model covers arrays of integers.
\<close>

datatype move_value = Null | Arr "int list"

text \<open>
  What the suggestion service contributes to one run of \<^verbatim>\<open>doAIMove\<close>: there is no client
  (no API key), the call rejects, or it resolves to a value. The run is taken as one
  step: the handlers it calls see the state of the render that started it.
\<close>

datatype ai_outcome = NoClient | Rejected | Got move_value

text \<open>
  \<^verbatim>\<open>let fallback = findBestMove(board); if (fallback) { handleCellClick(fallback[0], fallback[1], true); }\<close>
\<close>

definition ai_fallback :: "state \<Rightarrow> handler_result" where
  "ai_fallback s =
     (case findBestMove (board s) of
        Inl err \<Rightarrow> Threw err s
      | Inr None \<Rightarrow> Returned s
      | Inr (Some (i, j)) \<Rightarrow> handleCellClick i j True s)"

text \<open>The body of the \<^verbatim>\<open>try\<close> once the value has arrived; a throw here is caught below.\<close>

definition ai_try :: "move_value \<Rightarrow> state \<Rightarrow> handler_result" where
  "ai_try mv s =
     (case mv of
        Null \<Rightarrow> ai_fallback s
      | Arr xs \<Rightarrow>
          if length xs \<noteq> 2 then ai_fallback s
          else (case read_cell (board s) (xs ! 0) (xs ! 1) of
                  Inl err \<Rightarrow> Threw err s
                | Inr (Some m) \<Rightarrow> ai_fallback s
                | Inr None \<Rightarrow> handleCellClick (xs ! 0) (xs ! 1) True s))"

text \<open>The \<^verbatim>\<open>catch (e)\<close> block.\<close>

definition ai_catch :: "state \<Rightarrow> handler_result" where
  "ai_catch s = ai_fallback (s\<lparr>error := ''AI move failed, using fallback.''\<rparr>)"

text \<open>\<^verbatim>\<open>setAiThinking(false)\<close>, reached when nothing escaped.\<close>

definition ai_finish :: "handler_result \<Rightarrow> handler_result" where
  "ai_finish r = (case r of Returned s \<Rightarrow> Returned (s\<lparr>aiThinking := False\<rparr>) | Threw err s \<Rightarrow> Threw err s)"

definition doAIMove :: "ai_outcome \<Rightarrow> state \<Rightarrow> handler_result" where
  "doAIMove a s =
     (let s1 = s\<lparr>aiThinking := True, error := []\<rparr> in
      case a of
        NoClient \<Rightarrow>
          (case findBestMove (board s1) of
             Inl err \<Rightarrow> Threw err s1
           | Inr None \<Rightarrow> Threw TypeError s1
           | Inr (Some (i, j)) \<Rightarrow> ai_finish (handleCellClick i j True s1))
      | Rejected \<Rightarrow> ai_finish (ai_catch s1)
      | Got mv \<Rightarrow>
          (case ai_try mv s1 of
             Returned s2 \<Rightarrow> ai_finish (Returned s2)
           | Threw err s2 \<Rightarrow> ai_finish (ai_catch s2)))"

text \<open>
  The effect that starts it:
  \<^verbatim>\<open>if (mode === "pvc" && !calculateWinner(board) && !isXNext) { doAIMove(); }\<close>
\<close>

definition ai_effect :: "ai_outcome \<Rightarrow> state \<Rightarrow> handler_result" where
  "ai_effect a s =
     (if mode s \<noteq> Pvc then Returned s
      else (case calculateWinner (board s) of
              Inl err \<Rightarrow> Threw err s
            | Inr (Some w) \<Rightarrow> Returned s
            | Inr None \<Rightarrow> if isXNext s then Returned s else doAIMove a s))"

section \<open>The suggestion service's reply: getOpenAIMove\<close>






















section \<open>Reachable session states\<close>

text \<open>
  The session starts in \<open>init_state\<close> and moves by the handlers: clicks on any cell, the
  computer's turn with any outcome of the service, jumps to the entries the move list
  shows (the indices of the history), resets and mode changes.
\<close>

inductive reachable :: "state \<Rightarrow> bool" where
  r_init: "reachable init_state"
| r_click: "reachable s \<Longrightarrow> reachable (state_of (handleCellClick row col cm s))"
| r_ai: "reachable s \<Longrightarrow> reachable (state_of (ai_effect a s))"
| r_jump: "reachable s \<Longrightarrow> 0 \<le> k \<Longrightarrow> k < int (length (history s)) \<Longrightarrow>
           reachable (state_of (jumpTo k s))"
| r_reset: "reachable s \<Longrightarrow> reachable (handleReset s)"
| r_mode: "reachable s \<Longrightarrow> reachable (handleModeChange m s)"

section \<open>Vocabulary of the properties\<close>

text \<open>The cell at a coordinate pair of a 3 by 3 board, and the pairs that lie on it.\<close>

definition cell_of :: "board \<Rightarrow> int \<times> int \<Rightarrow> cell" where
  "cell_of bd p = bd ! nat (fst p) ! nat (snd p)"

definition in_grid :: "int \<times> int \<Rightarrow> bool" where
  "in_grid p = (0 \<le> fst p \<and> fst p < 3 \<and> 0 \<le> snd p \<and> snd p < 3)"

text \<open>All cells of a line hold the mark \<open>m\<close>.\<close>

definition line_held :: "board \<Rightarrow> line \<Rightarrow> mark \<Rightarrow> bool" where
  "line_held bd l m = (\<forall>p \<in> set l. cell_of bd p = Some m)"

definition good_line :: "line \<Rightarrow> bool" where
  "good_line l = (\<exists>p1 p2 p3. l = [p1, p2, p3] \<and> in_grid p1 \<and> in_grid p2 \<and> in_grid p3)"

definition row_line :: "int \<Rightarrow> line" where
  "row_line r = [(r, 0), (r, 1), (r, 2)]"

definition col_line :: "int \<Rightarrow> line" where
  "col_line c = [(0, c), (1, c), (2, c)]"

text \<open>Row-major order on coordinate pairs.\<close>

definition scanned_before :: "int \<times> int \<Rightarrow> int \<times> int \<Rightarrow> bool" where
  "scanned_before p q = (fst p < fst q \<or> (fst p = fst q \<and> snd p < snd q))"





text \<open>
  What every reachable session state satisfies: the cursor is an index of the history,
  whose first entry is the initial one; the board shown is the one stored at the cursor;
  X is to move exactly at the even indices; every later entry records a move and a
  player; all boards are 3 by 3.
\<close>

definition session_inv :: "state \<Rightarrow> bool" where
  "session_inv s =
     (0 \<le> step s \<and> step s < int (length (history s)) \<and>
      history s ! 0 = initial_entry \<and>
      board s = e_board (history s ! nat (step s)) \<and>
      isXNext s = even (step s) \<and>
      list_all (\<lambda>e. wf_board (e_board e)) (history s) \<and>
      list_all (\<lambda>e. e_move e \<noteq> None \<and> e_player e \<noteq> None) (tl (history s)))"

section \<open>Reading a 3 by 3 board\<close>

lemma wf_board_row: "wf_board bd \<Longrightarrow> i < 3 \<Longrightarrow> length (bd ! i) = 3"
  by (simp add: wf_board_def list_all_length)

lemma read_cell_wf:
  assumes "wf_board bd" "in_grid (r, c)"
  shows "read_cell bd r c = Inr (cell_of bd (r, c))"
proof -
  from assms have r: "nat r < 3" and c: "nat c < 3" by (auto simp: in_grid_def)
  from assms(1) have "length bd = 3" by (simp add: wf_board_def)
  moreover from assms(1) r have "length (bd ! nat r) = 3" by (rule wf_board_row)
  ultimately show ?thesis using assms(2)
    by (simp add: read_cell_def js_index_def cell_of_def in_grid_def)
qed

lemma check_line_wf:
  assumes "wf_board bd" "in_grid p1" "in_grid p2" "in_grid p3"
  shows "check_line bd [p1, p2, p3] =
     Inr (case cell_of bd p1 of None \<Rightarrow> None
          | Some m \<Rightarrow> if cell_of bd p2 = Some m \<and> cell_of bd p3 = Some m then Some m else None)"
proof -
  obtain a b c d e f where p: "p1 = (a, b)" "p2 = (c, d)" "p3 = (e, f)"
    by (metis surj_pair)
  show ?thesis using assms unfolding p
    by (auto simp: read_cell_wf split: option.splits)
qed

lemma check_line_held:
  assumes "wf_board bd" "in_grid p1" "in_grid p2" "in_grid p3" "line_held bd [p1, p2, p3] m"
  shows "check_line bd [p1, p2, p3] = Inr (Some m)"
  using assms(5) by (simp add: check_line_wf [OF assms(1-4)] line_held_def)

lemma check_line_not_held:
  assumes "wf_board bd" "in_grid p1" "in_grid p2" "in_grid p3" "\<forall>m. \<not> line_held bd [p1, p2, p3] m"
  shows "check_line bd [p1, p2, p3] = Inr None"
  using assms(5) by (auto simp add: check_line_wf [OF assms(1-4)] line_held_def split: option.splits)

lemma good_lines: "l \<in> set lines \<Longrightarrow> good_line l"
  by (auto simp: lines_def good_line_def in_grid_def)

lemma check_lines_none:
  assumes "wf_board bd"
  shows "\<forall>l \<in> set ls. good_line l \<and> (\<forall>m. \<not> line_held bd l m) \<Longrightarrow> check_lines bd ls = Inr None"
proof (induction ls)
  case Nil
  show ?case by simp
next
  case (Cons l ls)
  then have "good_line l" and nh: "\<forall>m. \<not> line_held bd l m" by simp_all
  then obtain p1 p2 p3 where l: "l = [p1, p2, p3]" and g: "in_grid p1" "in_grid p2" "in_grid p3"
    by (auto simp: good_line_def)
  have "check_line bd l = Inr None"
    using check_line_not_held [OF assms g] nh unfolding l by simp
  with Cons show ?case by simp
qed

lemma check_lines_first:
  assumes "wf_board bd"
  shows "i < length ls \<Longrightarrow> \<forall>l \<in> set ls. good_line l \<Longrightarrow> line_held bd (ls ! i) m \<Longrightarrow>
     \<forall>j<i. \<forall>m'. \<not> line_held bd (ls ! j) m' \<Longrightarrow>
     check_lines bd ls = Inr (Some (Winner m (ls ! i)))"
proof (induction ls arbitrary: i)
  case Nil
  then show ?case by simp
next
  case (Cons l ls)
  from Cons.prems(2) obtain p1 p2 p3 where l: "l = [p1, p2, p3]"
    and g: "in_grid p1" "in_grid p2" "in_grid p3"
    by (auto simp: good_line_def)
  show ?case
  proof (cases i)
    case 0
    with Cons.prems(3) have "line_held bd [p1, p2, p3] m" by (simp add: l)
    then have "check_line bd l = Inr (Some m)"
      using check_line_held [OF assms g] by (simp add: l)
    with 0 show ?thesis by simp
  next
    case (Suc n)
    with Cons.prems(4) have "\<forall>m'. \<not> line_held bd ((l # ls) ! 0) m'" by blast
    then have "\<forall>m'. \<not> line_held bd [p1, p2, p3] m'" by (simp add: l)
    then have nl: "check_line bd l = Inr None"
      using check_line_not_held [OF assms g] by (simp add: l)
    have "check_lines bd ls = Inr (Some (Winner m (ls ! n)))"
    proof (rule Cons.IH)
      show "n < length ls" using Cons.prems(1) Suc by simp
      show "\<forall>l\<in>set ls. good_line l" using Cons.prems(2) by simp
      show "line_held bd (ls ! n) m" using Cons.prems(3) Suc by simp
      show "\<forall>j<n. \<forall>m'. \<not> line_held bd (ls ! j) m'"
      proof (intro allI impI)
        fix j m' assume "j < n"
        then have "Suc j < i" using Suc by simp
        with Cons.prems(4) have "\<not> line_held bd ((l # ls) ! Suc j) m'" by blast
        then show "\<not> line_held bd (ls ! j) m'" by simp
      qed
    qed
    with nl Suc show ?thesis by simp
  qed
qed

lemma every_cell_wf:
  assumes "wf_board bd"
  shows "every_cell bd \<longleftrightarrow> (\<forall>r<3. \<forall>c<3. bd ! r ! c \<noteq> None)"
proof -
  from assms have len: "length bd = 3" and rows: "\<forall>i<3. length (bd ! i) = 3"
    by (simp_all add: wf_board_def list_all_length)
  show ?thesis
    using rows by (simp add: every_cell_def list_all_length len)
qed


lemma js_rem_2: "(js_rem k 2 = 0) = even k"
  by (auto simp: js_rem_def sgn_if)

lemma wf_createEmptyBoard: "wf_board createEmptyBoard"
  by (simp add: wf_board_def createEmptyBoard_def list_all_iff)

lemma length_map_with_index: "length (map_with_index f xs) = length xs"
  by (simp add: map_with_index_def)

lemma nth_map_with_index: "i < length xs \<Longrightarrow> map_with_index f xs ! i = f (int i) (xs ! i)"
  by (simp add: map_with_index_def nth_enumerate_eq)

lemma wf_place: "wf_board bd \<Longrightarrow> wf_board (place bd row col p)"
  by (simp add: wf_board_def place_def length_map_with_index list_all_length nth_map_with_index)

lemma cell_of_place:
  assumes "wf_board bd" "in_grid q"
  shows "cell_of (place bd row col p) q = (if q = (row, col) then Some p else cell_of bd q)"
proof -
  from assms have r: "nat (fst q) < length bd" and c: "nat (snd q) < length (bd ! nat (fst q))"
    by (auto simp add: wf_board_def in_grid_def list_all_length)
  from assms(2) have "int (nat (fst q)) = fst q" "int (nat (snd q)) = snd q"
    by (simp_all add: in_grid_def)
  with r c show ?thesis
    by (cases q) (simp add: cell_of_def place_def nth_map_with_index)
qed

lemma place_outside:
  assumes "wf_board bd" "\<not> in_grid (row, col)"
  shows "place bd row col p = bd"
proof (rule nth_equalityI)
  show "length (place bd row col p) = length bd" by (simp add: place_def length_map_with_index)
next
  fix i assume "i < length (place bd row col p)"
  then have i: "i < length bd" by (simp add: place_def length_map_with_index)
  with assms(1) have li: "length (bd ! i) = 3" and i3: "i < 3" by (simp_all add: wf_board_def list_all_length)
  have "map_with_index (\<lambda>j cell. if int i = row \<and> j = col then Some p else cell) (bd ! i) = bd ! i"
  proof (rule nth_equalityI)
    show "length (map_with_index (\<lambda>j cell. if int i = row \<and> j = col then Some p else cell) (bd ! i)) = length (bd ! i)"
      by (simp add: length_map_with_index)
  next
    fix j assume "j < length (map_with_index (\<lambda>j cell. if int i = row \<and> j = col then Some p else cell) (bd ! i))"
    then have j: "j < length (bd ! i)" by (simp add: length_map_with_index)
    with li i3 assms(2) have "\<not> (int i = row \<and> int j = col)" by (auto simp: in_grid_def)
    with j show "map_with_index (\<lambda>j cell. if int i = row \<and> j = col then Some p else cell) (bd ! i) ! j = bd ! i ! j"
      by (auto simp add: nth_map_with_index)
  qed
  with i show "place bd row col p ! i = bd ! i" by (simp add: place_def nth_map_with_index)
qed

lemma js_slice0_inv: "0 \<le> k \<Longrightarrow> js_slice0 xs (k + 1) = take (nat k + 1) xs"
  by (simp add: js_slice0_def nat_add_distrib)

section \<open>The outcome evaluator\<close>

lemma calculateWinner_won:
  assumes "wf_board bd" "i < length lines" "line_held bd (lines ! i) m"
    "\<forall>j<i. \<forall>m'. \<not> line_held bd (lines ! j) m'"
  shows "calculateWinner bd = Inr (Some (Winner m (lines ! i)))"
proof -
  have "\<forall>l \<in> set lines. good_line l" using good_lines by blast
  with assms have "check_lines bd lines = Inr (Some (Winner m (lines ! i)))"
    by (intro check_lines_first) 
  then show ?thesis by (simp add: calculateWinner_def)
qed

lemma full_board_wf:
  assumes "wf_board bd"
  shows "every_cell bd \<longleftrightarrow> (\<forall>p. in_grid p \<longrightarrow> cell_of bd p \<noteq> None)"
proof
  assume "every_cell bd"
  then have e: "\<forall>r<3. \<forall>c<3. bd ! r ! c \<noteq> None" using every_cell_wf [OF assms] by simp
  show "\<forall>p. in_grid p \<longrightarrow> cell_of bd p \<noteq> None"
  proof (intro allI impI)
    fix p :: "int \<times> int" assume "in_grid p"
    then have "nat (fst p) < 3" "nat (snd p) < 3" by (auto simp add: in_grid_def)
    with e show "cell_of bd p \<noteq> None" by (simp add: cell_of_def)
  qed
next
  assume a: "\<forall>p. in_grid p \<longrightarrow> cell_of bd p \<noteq> None"
  have "\<forall>r<3. \<forall>c<3. bd ! r ! c \<noteq> None"
  proof (intro allI impI)
    fix r c :: nat assume "r < 3" "c < 3"
    then have "in_grid (int r, int c)" by (simp add: in_grid_def)
    with a have "cell_of bd (int r, int c) \<noteq> None" by blast
    then show "bd ! r ! c \<noteq> None" by (simp add: cell_of_def)
  qed
  then show "every_cell bd" using every_cell_wf [OF assms] by simp
qed

lemma calculateWinner_no_line:
  assumes "wf_board bd" "\<forall>i<length lines. \<forall>m. \<not> line_held bd (lines ! i) m"
  shows "calculateWinner bd =
     Inr (if (\<forall>p. in_grid p \<longrightarrow> cell_of bd p \<noteq> None) then Some Draw else None)"
proof -
  have "\<forall>l \<in> set lines. good_line l \<and> (\<forall>m. \<not> line_held bd l m)"
    using good_lines assms(2) by (metis in_set_conv_nth)
  then have "check_lines bd lines = Inr None" by (rule check_lines_none [OF assms(1)])
  then show ?thesis by (simp add: calculateWinner_def full_board_wf [OF assms(1)])
qed

lemma lines_order:
  "lines = map row_line [0, 1, 2] @ map col_line [0, 1, 2] @
     [[(0, 0), (1, 1), (2, 2)], [(0, 2), (1, 1), (2, 0)]]"
  by (simp add: lines_def row_line_def col_line_def)

lemma calculateWinner_example:
  "calculateWinner
     [[Some MarkX, Some MarkX, Some MarkX], [None, Some MarkO, None], [Some MarkO, None, None]] =
   Inr (Some (Winner MarkX [(0, 0), (0, 1), (0, 2)]))"
  by (simp add: calculateWinner_def lines_def read_cell_def js_index_def)

text \<open>
  Claim C1. On a 3 by 3 board the evaluator goes through the eight lines in the order
  three rows, three columns, two diagonals. It returns the win of mark \<open>m\<close> on the first
  line of that order whose three cells all hold \<open>m\<close>; when no line is held it returns the
  draw if every cell is occupied and \<^verbatim>\<open>null\<close> (in progress) otherwise. The board
  \<^verbatim>\<open>[[X,X,X],[-,O,-],[O,-,-]]\<close> is won by X on the line (0,0), (0,1), (0,2).
\<close>

theorem calculateWinner_first_held_line:
  assumes "wf_board bd"
  shows "lines = map row_line [0, 1, 2] @ map col_line [0, 1, 2] @
           [[(0, 0), (1, 1), (2, 2)], [(0, 2), (1, 1), (2, 0)]] \<and>
         (\<forall>i m. i < length lines \<and> line_held bd (lines ! i) m \<and>
                (\<forall>j<i. \<forall>m'. \<not> line_held bd (lines ! j) m') \<longrightarrow>
                calculateWinner bd = Inr (Some (Winner m (lines ! i)))) \<and>
         ((\<forall>i<length lines. \<forall>m. \<not> line_held bd (lines ! i) m) \<longrightarrow>
            calculateWinner bd =
              Inr (if (\<forall>p. in_grid p \<longrightarrow> cell_of bd p \<noteq> None) then Some Draw else None)) \<and>
         calculateWinner
           [[Some MarkX, Some MarkX, Some MarkX], [None, Some MarkO, None], [Some MarkO, None, None]] =
         Inr (Some (Winner MarkX [(0, 0), (0, 1), (0, 2)]))"
  using assms lines_order calculateWinner_won calculateWinner_no_line calculateWinner_example
  by blast

theorem calculateWinner_first_held_line_witness:
  "wf_board [[Some MarkO, Some MarkO, None], [Some MarkX, Some MarkX, Some MarkX], [Some MarkX, Some MarkO, Some MarkX]] \<and>
   line_held [[Some MarkO, Some MarkO, None], [Some MarkX, Some MarkX, Some MarkX], [Some MarkX, Some MarkO, Some MarkX]]
     (lines ! 1) MarkX \<and>
   calculateWinner [[Some MarkO, Some MarkO, None], [Some MarkX, Some MarkX, Some MarkX], [Some MarkX, Some MarkO, Some MarkX]] =
     Inr (Some (Winner MarkX [(1, 0), (1, 1), (1, 2)])) \<and>
   wf_board [[Some MarkX, Some MarkO, Some MarkX], [Some MarkX, Some MarkO, Some MarkO], [Some MarkO, Some MarkX, Some MarkX]] \<and>
   calculateWinner [[Some MarkX, Some MarkO, Some MarkX], [Some MarkX, Some MarkO, Some MarkO], [Some MarkO, Some MarkX, Some MarkX]] =
     Inr (Some Draw)"
proof -
  define b1 where "b1 = [[Some MarkO, Some MarkO, None], [Some MarkX, Some MarkX, Some MarkX], [Some MarkX, Some MarkO, Some MarkX]]"
  define b2 where "b2 = [[Some MarkX, Some MarkO, Some MarkX], [Some MarkX, Some MarkO, Some MarkO], [Some MarkO, Some MarkX, Some MarkX]]"
  have w1: "wf_board b1" and w2: "wf_board b2" by (simp_all add: wf_board_def b1_def b2_def)
  have h1: "line_held b1 (lines ! 1) MarkX"
    by (simp add: line_held_def lines_def cell_of_def b1_def)
  have n1: "\<forall>j<1. \<forall>m'. \<not> line_held b1 (lines ! j) m'"
    by (simp add: line_held_def lines_def cell_of_def b1_def)
  have l1: "1 < length lines" by (simp add: lines_def)
  have "calculateWinner b1 = Inr (Some (Winner MarkX (lines ! 1)))"
    by (rule calculateWinner_first_held_line [OF w1, THEN conjunct2, THEN conjunct1, rule_format])
      (intro conjI l1 h1 n1)
  then have r1: "calculateWinner b1 = Inr (Some (Winner MarkX [(1, 0), (1, 1), (1, 2)]))"
    by (simp add: lines_def)
  have n2: "\<forall>i<length lines. \<forall>m. \<not> line_held b2 (lines ! i) m"
  proof (intro allI impI)
    fix i m assume "i < length lines"
    then have "i \<in> {0, 1, 2, 3, 4, 5, 6, 7}" by (auto simp: lines_def)
    then show "\<not> line_held b2 (lines ! i) m"
      by (cases m) (auto simp: line_held_def lines_def cell_of_def b2_def)
  qed
  have f2: "\<forall>p. in_grid p \<longrightarrow> cell_of b2 p \<noteq> None"
  proof (intro allI impI)
    fix p :: "int \<times> int" assume "in_grid p"
    then have "fst p \<in> {0, 1, 2}" "snd p \<in> {0, 1, 2}" by (auto simp: in_grid_def)
    then show "cell_of b2 p \<noteq> None" by (auto simp: cell_of_def b2_def)
  qed
  have "calculateWinner b2 =
      Inr (if (\<forall>p. in_grid p \<longrightarrow> cell_of b2 p \<noteq> None) then Some Draw else None)"
    by (rule calculateWinner_first_held_line
          [OF w2, THEN conjunct2, THEN conjunct2, THEN conjunct1, rule_format])
      (rule n2 [rule_format])
  with f2 have r2: "calculateWinner b2 = Inr (Some Draw)" by simp
  show ?thesis using w1 w2 h1 r1 r2 unfolding b1_def b2_def by simp
qed

section \<open>The fallback move selector\<close>

lemma scan_row_None:
  assumes "wf_board bd" "0 \<le> i" "i < 3"
  shows "n \<le> 3 \<Longrightarrow> \<forall>c. 3 - int n \<le> c \<and> c < 3 \<longrightarrow> cell_of bd (i, c) \<noteq> None \<Longrightarrow>
     scan_row bd i n = Inr None"
proof (induction n)
  case 0
  show ?case by simp
next
  case (Suc n)
  have g: "in_grid (i, 2 - int n)" using assms(2,3) Suc.prems(1) by (simp add: in_grid_def)
  have "cell_of bd (i, 2 - int n) \<noteq> None" using Suc.prems by simp
  then obtain m where "read_cell bd i (2 - int n) = Inr (Some m)"
    using read_cell_wf [OF assms(1) g] by auto
  moreover have "scan_row bd i n = Inr None" using Suc by simp
  ultimately show ?case by simp
qed

lemma scan_row_Some:
  assumes "wf_board bd" "0 \<le> i" "i < 3" "c < 3" "cell_of bd (i, c) = None"
  shows "n \<le> 3 \<Longrightarrow> 3 - int n \<le> c \<Longrightarrow>
     \<forall>c'. 3 - int n \<le> c' \<and> c' < c \<longrightarrow> cell_of bd (i, c') \<noteq> None \<Longrightarrow>
     scan_row bd i n = Inr (Some (i, c))"
proof (induction n)
  case 0
  with assms(4) show ?case by simp
next
  case (Suc n)
  have g: "in_grid (i, 2 - int n)" using assms(2,3) Suc.prems(1) by (simp add: in_grid_def)
  show ?case
  proof (cases "c = 2 - int n")
    case True
    with assms(5) have "read_cell bd i (2 - int n) = Inr None"
      using read_cell_wf [OF assms(1) g] by simp
    with True show ?thesis by simp
  next
    case False
    with Suc.prems(2) have lt: "2 - int n < c" by simp
    with Suc.prems(3) have "cell_of bd (i, 2 - int n) \<noteq> None" by simp
    then obtain m where "read_cell bd i (2 - int n) = Inr (Some m)"
      using read_cell_wf [OF assms(1) g] by auto
    moreover have "scan_row bd i n = Inr (Some (i, c))"
      using Suc lt by simp
    ultimately show ?thesis by simp
  qed
qed

lemma scan_rows_None:
  assumes "wf_board bd"
  shows "n \<le> 3 \<Longrightarrow> \<forall>p. in_grid p \<and> 3 - int n \<le> fst p \<longrightarrow> cell_of bd p \<noteq> None \<Longrightarrow>
     scan_rows bd n = Inr None"
proof (induction n)
  case 0
  show ?case by simp
next
  case (Suc n)
  have "\<forall>c. 3 - int 3 \<le> c \<and> c < 3 \<longrightarrow> cell_of bd (2 - int n, c) \<noteq> None"
    using Suc.prems by (simp add: in_grid_def)
  then have "scan_row bd (2 - int n) 3 = Inr None"
    using Suc.prems(1) by (intro scan_row_None [OF assms]) simp_all
  moreover have "scan_rows bd n = Inr None" using Suc by simp
  ultimately show ?case by simp
qed

lemma scan_rows_Some:
  assumes "wf_board bd" "in_grid (r, c)" "cell_of bd (r, c) = None"
  shows "n \<le> 3 \<Longrightarrow> 3 - int n \<le> r \<Longrightarrow>
     \<forall>p. in_grid p \<and> 3 - int n \<le> fst p \<and> scanned_before p (r, c) \<longrightarrow> cell_of bd p \<noteq> None \<Longrightarrow>
     scan_rows bd n = Inr (Some (r, c))"
proof (induction n)
  case 0
  with assms(2) show ?case by (simp add: in_grid_def)
next
  case (Suc n)
  from assms(2) have rc: "0 \<le> r" "r < 3" "0 \<le> c" "c < 3" by (simp_all add: in_grid_def)
  show ?case
  proof (cases "r = 2 - int n")
    case True
    have "\<forall>c'. 3 - int 3 \<le> c' \<and> c' < c \<longrightarrow> cell_of bd (r, c') \<noteq> None"
      using Suc.prems(3) rc True by (simp add: in_grid_def scanned_before_def)
    then have "scan_row bd r 3 = Inr (Some (r, c))"
      using rc assms(3) by (intro scan_row_Some [OF assms(1)]) simp_all
    with True show ?thesis by simp
  next
    case False
    with Suc.prems(2) have lt: "2 - int n < r" by simp
    have "\<forall>c'. 3 - int 3 \<le> c' \<and> c' < 3 \<longrightarrow> cell_of bd (2 - int n, c') \<noteq> None"
      using Suc.prems(1,3) lt by (simp add: in_grid_def scanned_before_def)
    then have "scan_row bd (2 - int n) 3 = Inr None"
      using Suc.prems(1) by (intro scan_row_None [OF assms(1)]) simp_all
    moreover have "scan_rows bd n = Inr (Some (r, c))"
      using Suc lt by simp
    ultimately show ?thesis by simp
  qed
qed

lemma first_empty_exists:
  assumes "in_grid p" "cell_of bd p = None"
  shows "\<exists>q. in_grid q \<and> cell_of bd q = None \<and>
     (\<forall>p'. in_grid p' \<and> scanned_before p' q \<longrightarrow> cell_of bd p' \<noteq> None)"
proof -
  let ?P = "\<lambda>q. in_grid q \<and> cell_of bd q = None"
  let ?f = "\<lambda>q :: int \<times> int. nat (3 * fst q + snd q)"
  from assms have "?P p" by simp
  then obtain q where q: "?P q" and least: "\<forall>y. ?P y \<longrightarrow> ?f q \<le> ?f y"
    using ex_has_least_nat [of ?P p ?f] by blast
  have "\<forall>p'. in_grid p' \<and> scanned_before p' q \<longrightarrow> cell_of bd p' \<noteq> None"
  proof (intro allI impI notI)
    fix p' assume a: "in_grid p' \<and> scanned_before p' q" and e: "cell_of bd p' = None"
    with least have "?f q \<le> ?f p'" by blast
    moreover from a q have "?f p' < ?f q"
      by (auto simp: in_grid_def scanned_before_def)
    ultimately show False by simp
  qed
  with q show ?thesis by blast
qed

lemma findBestMove_first_empty:
  assumes "wf_board bd" "in_grid q" "cell_of bd q = None"
    "\<forall>p. in_grid p \<and> scanned_before p q \<longrightarrow> cell_of bd p \<noteq> None"
  shows "findBestMove bd = Inr (Some q)"
proof -
  obtain r c where q: "q = (r, c)" by (cases q)
  have "scan_rows bd 3 = Inr (Some (r, c))"
    using assms unfolding q by (intro scan_rows_Some) (simp_all add: in_grid_def)
  then show ?thesis by (simp add: findBestMove_def q)
qed

lemma findBestMove_full:
  assumes "wf_board bd" "\<forall>p. in_grid p \<longrightarrow> cell_of bd p \<noteq> None"
  shows "findBestMove bd = Inr None"
  using assms unfolding findBestMove_def by (intro scan_rows_None) simp_all

lemma findBestMove_example:
  "findBestMove [[Some MarkX, Some MarkX, None], [None, None, None], [None, None, None]] =
   Inr (Some (0, 2))"
  by (simp add: findBestMove_def numeral_3_eq_3 read_cell_def js_index_def)

text \<open>
  Claim C6. On a 3 by 3 board with an empty cell, the selector returns the coordinates of
  an empty cell before which, in row-major order, every cell is occupied: the first
  empty cell of the scan. On \<^verbatim>\<open>[[X,X,-],[-,-,-],[-,-,-]]\<close> that is (0,2). On a board with no
  empty cell it reports that there is no move (it returns \<^verbatim>\<open>null\<close>).
\<close>

theorem findBestMove_row_major_first:
  assumes "wf_board bd"
  shows "((\<exists>p. in_grid p \<and> cell_of bd p = None) \<longrightarrow>
            (\<exists>q. findBestMove bd = Inr (Some q) \<and> in_grid q \<and> cell_of bd q = None \<and>
                 (\<forall>p. in_grid p \<and> scanned_before p q \<longrightarrow> cell_of bd p \<noteq> None))) \<and>
         ((\<forall>p. in_grid p \<longrightarrow> cell_of bd p \<noteq> None) \<longrightarrow> findBestMove bd = Inr None) \<and>
         findBestMove [[Some MarkX, Some MarkX, None], [None, None, None], [None, None, None]] =
           Inr (Some (0, 2))"
proof (intro conjI impI)
  assume "\<exists>p. in_grid p \<and> cell_of bd p = None"
  then obtain q where q: "in_grid q" "cell_of bd q = None"
    "\<forall>p. in_grid p \<and> scanned_before p q \<longrightarrow> cell_of bd p \<noteq> None"
    using first_empty_exists by blast
  then have "findBestMove bd = Inr (Some q)" by (rule findBestMove_first_empty [OF assms])
  with q show "\<exists>q. findBestMove bd = Inr (Some q) \<and> in_grid q \<and> cell_of bd q = None \<and>
                 (\<forall>p. in_grid p \<and> scanned_before p q \<longrightarrow> cell_of bd p \<noteq> None)" by blast
next
  assume "\<forall>p. in_grid p \<longrightarrow> cell_of bd p \<noteq> None"
  then show "findBestMove bd = Inr None" by (rule findBestMove_full [OF assms])
next
  show "findBestMove [[Some MarkX, Some MarkX, None], [None, None, None], [None, None, None]] =
           Inr (Some (0, 2))" by (rule findBestMove_example)
qed

theorem findBestMove_row_major_first_witness:
  "wf_board [[Some MarkX, Some MarkO, Some MarkX], [Some MarkO, None, Some MarkX], [None, Some MarkO, None]] \<and>
   in_grid (1, 1) \<and>
   cell_of [[Some MarkX, Some MarkO, Some MarkX], [Some MarkO, None, Some MarkX], [None, Some MarkO, None]] (1, 1) = None \<and>
   (\<exists>q. findBestMove [[Some MarkX, Some MarkO, Some MarkX], [Some MarkO, None, Some MarkX], [None, Some MarkO, None]] = Inr (Some q) \<and>
        cell_of [[Some MarkX, Some MarkO, Some MarkX], [Some MarkO, None, Some MarkX], [None, Some MarkO, None]] q = None) \<and>
   findBestMove [[Some MarkX, Some MarkO, Some MarkX], [Some MarkO, None, Some MarkX], [None, Some MarkO, None]] = Inr (Some (1, 1)) \<and>
   wf_board [[Some MarkX, Some MarkO, Some MarkX], [Some MarkX, Some MarkO, Some MarkO], [Some MarkO, Some MarkX, Some MarkX]] \<and>
   findBestMove [[Some MarkX, Some MarkO, Some MarkX], [Some MarkX, Some MarkO, Some MarkO], [Some MarkO, Some MarkX, Some MarkX]] = Inr None"
proof -
  define b1 where "b1 = [[Some MarkX, Some MarkO, Some MarkX], [Some MarkO, None, Some MarkX], [None, Some MarkO, None]]"
  define b2 where "b2 = [[Some MarkX, Some MarkO, Some MarkX], [Some MarkX, Some MarkO, Some MarkO], [Some MarkO, Some MarkX, Some MarkX]]"
  have w1: "wf_board b1" and w2: "wf_board b2" by (simp_all add: wf_board_def b1_def b2_def)
  have g: "in_grid (1, 1)" by (simp add: in_grid_def)
  have e: "cell_of b1 (1, 1) = None" by (simp add: cell_of_def b1_def)
  from g e have ex: "\<exists>p. in_grid p \<and> cell_of b1 p = None" by blast
  have x1: "\<exists>q. findBestMove b1 = Inr (Some q) \<and> in_grid q \<and> cell_of b1 q = None \<and>
                 (\<forall>p. in_grid p \<and> scanned_before p q \<longrightarrow> cell_of b1 p \<noteq> None)"
    by (rule findBestMove_row_major_first [OF w1, THEN conjunct1, rule_format]) (rule ex)
  then have x1': "\<exists>q. findBestMove b1 = Inr (Some q) \<and> cell_of b1 q = None" by blast
  have v1: "findBestMove b1 = Inr (Some (1, 1))"
    by (simp add: findBestMove_def numeral_3_eq_3 read_cell_def js_index_def b1_def)
  have f2: "\<forall>p. in_grid p \<longrightarrow> cell_of b2 p \<noteq> None"
  proof (intro allI impI)
    fix p :: "int \<times> int" assume "in_grid p"
    then have "fst p \<in> {0, 1, 2}" "snd p \<in> {0, 1, 2}" by (auto simp: in_grid_def)
    then show "cell_of b2 p \<noteq> None" by (auto simp: cell_of_def b2_def)
  qed
  have r2: "findBestMove b2 = Inr None"
    by (rule findBestMove_row_major_first [OF w2, THEN conjunct2, THEN conjunct1, rule_format])
      (rule f2 [rule_format])
  show ?thesis using w1 w2 g e x1' v1 r2 unfolding b1_def b2_def by simp
qed

section \<open>Clicks\<close>

lemma check_lines_total:
  assumes "wf_board bd"
  shows "\<forall>l \<in> set ls. good_line l \<Longrightarrow> \<exists>w. check_lines bd ls = Inr w"
proof (induction ls)
  case Nil
  show ?case by simp
next
  case (Cons l ls)
  then obtain p1 p2 p3 where l: "l = [p1, p2, p3]" and g: "in_grid p1" "in_grid p2" "in_grid p3"
    by (auto simp: good_line_def)
  from Cons obtain w where "check_lines bd ls = Inr w" by auto
  then show ?case unfolding l
    by (simp add: check_line_wf [OF assms g] del: check_line.simps split: option.splits)
qed

lemma calculateWinner_total:
  assumes "wf_board bd"
  shows "\<exists>w. calculateWinner bd = Inr w"
proof -
  have "\<forall>l \<in> set lines. good_line l" using good_lines by blast
  then obtain w where "check_lines bd lines = Inr w"
    using check_lines_total [OF assms] by blast
  then show ?thesis by (simp add: calculateWinner_def split: option.splits)
qed

lemma handleCellClick_accepted:
  assumes "calculateWinner (board s) = Inr None" "read_cell (board s) row col = Inr None"
    "\<not> (mode s = Pvc \<and> \<not> isXNext s \<and> \<not> cm)"
  shows "handleCellClick row col cm s =
     Returned (s\<lparr>board := place (board s) row col (if isXNext s then MarkX else MarkO),
        history := js_slice0 (history s) (step s + 1) @
          [\<lparr>e_board = place (board s) row col (if isXNext s then MarkX else MarkO),
            e_move = Some (row, col), e_player = Some (if isXNext s then MarkX else MarkO)\<rparr>],
        step := int (length (js_slice0 (history s) (step s + 1))),
        isXNext := \<not> isXNext s\<rparr>)"
  using assms by (auto simp add: handleCellClick_def Let_def)

lemma handleCellClick_unchanged_or_accepted:
  "state_of (handleCellClick row col cm s) = s \<or>
   (calculateWinner (board s) = Inr None \<and> read_cell (board s) row col = Inr None \<and>
    \<not> (mode s = Pvc \<and> \<not> isXNext s \<and> \<not> cm))"
  by (simp add: handleCellClick_def Let_def split: sum.splits option.splits)

lemma handleCellClick_changed:
  assumes "handleCellClick row col cm s = Returned s'" "s' \<noteq> s"
  shows "calculateWinner (board s) = Inr None \<and> read_cell (board s) row col = Inr None \<and>
    \<not> (mode s = Pvc \<and> \<not> isXNext s \<and> \<not> cm)"
  using handleCellClick_unchanged_or_accepted [of row col cm s] assms by auto

lemma handleCellClick_result:
  assumes "0 \<le> step s" "handleCellClick row col cm s = Returned s'" "s' \<noteq> s"
  shows "s' = s\<lparr>board := place (board s) row col (if isXNext s then MarkX else MarkO),
        history := take (nat (step s) + 1) (history s) @
          [\<lparr>e_board = place (board s) row col (if isXNext s then MarkX else MarkO),
            e_move = Some (row, col), e_player = Some (if isXNext s then MarkX else MarkO)\<rparr>],
        step := int (length (take (nat (step s) + 1) (history s))),
        isXNext := \<not> isXNext s\<rparr>"
proof -
  note c = handleCellClick_changed [OF assms(2,3)]
  have "handleCellClick row col cm s = Returned (s\<lparr>board := place (board s) row col (if isXNext s then MarkX else MarkO),
        history := js_slice0 (history s) (step s + 1) @
          [\<lparr>e_board = place (board s) row col (if isXNext s then MarkX else MarkO),
            e_move = Some (row, col), e_player = Some (if isXNext s then MarkX else MarkO)\<rparr>],
        step := int (length (js_slice0 (history s) (step s + 1))),
        isXNext := \<not> isXNext s\<rparr>)"
    using c by (intro handleCellClick_accepted) simp_all
  with assms(2) show ?thesis by (simp add: js_slice0_inv [OF assms(1)])
qed

text \<open>
  Claim C3. When the cursor \<open>k\<close> is not at the last entry of a history of length \<open>N\<close>
  (\<open>k < N - 1\<close>), a human move that goes through keeps the entries up to \<open>k\<close>, drops
  the entries \<open>k + 1\<close> to \<open>N - 1\<close> and appends the new entry: the history then has \<open>k + 2\<close>
  entries and the cursor is \<open>k + 1\<close>.
\<close>

theorem handleCellClick_truncates_history:
  assumes "0 \<le> step s" "step s < int (length (history s)) - 1"
    "handleCellClick row col False s = Returned s'" "s' \<noteq> s"
  shows "history s' = take (nat (step s) + 1) (history s) @
           [\<lparr>e_board = board s', e_move = Some (row, col),
             e_player = Some (if isXNext s then MarkX else MarkO)\<rparr>] \<and>
         length (history s') = nat (step s) + 2 \<and>
         step s' = step s + 1"
proof -
  from assms(1,2) have "nat (step s) + 1 \<le> length (history s)" by simp
  then have "length (take (nat (step s) + 1) (history s)) = nat (step s) + 1" by simp
  with handleCellClick_result [OF assms(1,3,4)] assms(1) show ?thesis by simp
qed

theorem handleCellClick_truncates_history_witness:
  "0 \<le> step (state_of (jumpTo 0 (state_of (handleCellClick 1 1 False
      (state_of (handleCellClick 0 0 False init_state)))))) \<and>
   length (history (state_of (jumpTo 0 (state_of (handleCellClick 1 1 False
      (state_of (handleCellClick 0 0 False init_state))))))) = 3 \<and>
   length (history (state_of (handleCellClick 2 2 False (state_of (jumpTo 0
      (state_of (handleCellClick 1 1 False (state_of (handleCellClick 0 0 False init_state))))))))) = 2 \<and>
   step (state_of (handleCellClick 2 2 False (state_of (jumpTo 0
      (state_of (handleCellClick 1 1 False (state_of (handleCellClick 0 0 False init_state)))))))) = 1"
proof -
  define s0 where "s0 = state_of (jumpTo 0 (state_of (handleCellClick 1 1 False
      (state_of (handleCellClick 0 0 False init_state)))))"
  define s1 where "s1 = state_of (handleCellClick 2 2 False s0)"
  have a: "0 \<le> step s0" unfolding s0_def by code_simp
  have n: "length (history s0) = 3" unfolding s0_def by code_simp
  have b: "step s0 < int (length (history s0)) - 1" unfolding s0_def by code_simp
  have st: "step s0 = 0" unfolding s0_def by code_simp
  have c: "handleCellClick 2 2 False s0 = Returned s1" unfolding s1_def s0_def by code_simp
  have d: "s1 \<noteq> s0" unfolding s1_def s0_def by code_simp
  from handleCellClick_truncates_history [OF a b c d, THEN conjunct2]
  have "length (history s1) = nat (step s0) + 2" and "step s1 = step s0 + 1" by simp_all
  with st have "length (history s1) = 2" "step s1 = 1" by simp_all
  with a n show ?thesis unfolding s1_def s0_def by simp
qed

text \<open>
  Claim C5, as the code has it. On a 3 by 3 board a click on an occupied cell of the grid
  leaves the session state as it was, and so does a click whose row is outside 0..2
  (the read of the cell throws, or the game is over). A click on an empty cell of the
  grid, in a game that is not over and when it is the clicker's turn, gives a board that
  holds the mover's mark at the target and agrees with the old board at every other
  cell; the entries of the history up to the cursor, which hold the earlier boards, are
  as they were.
\<close>

theorem handleCellClick_frame:
  assumes "wf_board (board s)" "0 \<le> step s" "step s < int (length (history s))"
  shows "(in_grid (row, col) \<and> cell_of (board s) (row, col) \<noteq> None \<longrightarrow>
            handleCellClick row col cm s = Returned s) \<and>
         (\<not> (0 \<le> row \<and> row < 3) \<longrightarrow> state_of (handleCellClick row col cm s) = s) \<and>
         (in_grid (row, col) \<and> cell_of (board s) (row, col) = None \<and>
          calculateWinner (board s) = Inr None \<and> \<not> (mode s = Pvc \<and> \<not> isXNext s \<and> \<not> cm) \<longrightarrow>
            (\<exists>s'. handleCellClick row col cm s = Returned s' \<and>
                  wf_board (board s') \<and>
                  cell_of (board s') (row, col) = Some (if isXNext s then MarkX else MarkO) \<and>
                  (\<forall>p. in_grid p \<and> p \<noteq> (row, col) \<longrightarrow> cell_of (board s') p = cell_of (board s) p) \<and>
                  take (nat (step s) + 1) (history s') = take (nat (step s) + 1) (history s)))"
proof (intro conjI impI)
  assume a: "in_grid (row, col) \<and> cell_of (board s) (row, col) \<noteq> None"
  then have "read_cell (board s) row col = Inr (cell_of (board s) (row, col))"
    using read_cell_wf [OF assms(1)] by blast
  moreover obtain w where "calculateWinner (board s) = Inr w"
    using calculateWinner_total [OF assms(1)] by blast
  ultimately show "handleCellClick row col cm s = Returned s"
    using a by (auto simp add: handleCellClick_def split: option.splits)
next
  assume "\<not> (0 \<le> row \<and> row < 3)"
  with assms(1) have "read_cell (board s) row col = Inl TypeError"
    by (auto simp add: read_cell_def js_index_def wf_board_def)
  then show "state_of (handleCellClick row col cm s) = s"
    by (simp add: handleCellClick_def split: sum.splits option.splits)
next
  assume a: "in_grid (row, col) \<and> cell_of (board s) (row, col) = None \<and>
          calculateWinner (board s) = Inr None \<and> \<not> (mode s = Pvc \<and> \<not> isXNext s \<and> \<not> cm)"
  let ?p = "if isXNext s then MarkX else MarkO"
  let ?s' = "s\<lparr>board := place (board s) row col ?p,
        history := js_slice0 (history s) (step s + 1) @
          [\<lparr>e_board = place (board s) row col ?p,
            e_move = Some (row, col), e_player = Some ?p\<rparr>],
        step := int (length (js_slice0 (history s) (step s + 1))),
        isXNext := \<not> isXNext s\<rparr>"
  from a have rd: "read_cell (board s) row col = Inr None"
    using read_cell_wf [OF assms(1)] by simp
  have 1: "handleCellClick row col cm s = Returned ?s'"
    using a rd by (intro handleCellClick_accepted) simp_all
  have 2: "wf_board (board ?s')" using assms(1) by (simp add: wf_place)
  have 3: "cell_of (board ?s') (row, col) = Some ?p"
    using a cell_of_place [OF assms(1), of "(row, col)" row col ?p] by simp
  have 4: "\<forall>p. in_grid p \<and> p \<noteq> (row, col) \<longrightarrow> cell_of (board ?s') p = cell_of (board s) p"
    using cell_of_place [OF assms(1)] by simp
  have 5: "take (nat (step s) + 1) (history ?s') = take (nat (step s) + 1) (history s)"
    using assms(2,3) by (simp add: js_slice0_inv [OF assms(2)])
  from 1 2 3 4 5 show "\<exists>s'. handleCellClick row col cm s = Returned s' \<and>
                  wf_board (board s') \<and>
                  cell_of (board s') (row, col) = Some (if isXNext s then MarkX else MarkO) \<and>
                  (\<forall>p. in_grid p \<and> p \<noteq> (row, col) \<longrightarrow> cell_of (board s') p = cell_of (board s) p) \<and>
                  take (nat (step s) + 1) (history s') = take (nat (step s) + 1) (history s)"
    by blast
qed

theorem handleCellClick_frame_witness:
  "wf_board (board (state_of (handleCellClick 0 0 False init_state))) \<and>
   in_grid (0, 0) \<and>
   cell_of (board (state_of (handleCellClick 0 0 False init_state))) (0, 0) \<noteq> None \<and>
   handleCellClick 0 0 False (state_of (handleCellClick 0 0 False init_state)) =
     Returned (state_of (handleCellClick 0 0 False init_state)) \<and>
   state_of (handleCellClick 5 0 False (state_of (handleCellClick 0 0 False init_state))) =
     state_of (handleCellClick 0 0 False init_state) \<and>
   (\<exists>s'. handleCellClick 1 1 False (state_of (handleCellClick 0 0 False init_state)) = Returned s' \<and>
         cell_of (board s') (1, 1) = Some MarkO \<and>
         cell_of (board s') (0, 0) = cell_of (board (state_of (handleCellClick 0 0 False init_state))) (0, 0))"
proof -
  define s1 where "s1 = state_of (handleCellClick 0 0 False init_state)"
  have w: "wf_board (board s1)" unfolding s1_def by code_simp
  have k: "0 \<le> step s1" "step s1 < int (length (history s1))" unfolding s1_def by code_simp+
  have g0: "in_grid (0, 0)" and g1: "in_grid (1, 1)" by (simp_all add: in_grid_def)
  have o: "cell_of (board s1) (0, 0) \<noteq> None" unfolding s1_def by code_simp
  have e: "cell_of (board s1) (1, 1) = None" unfolding s1_def by code_simp
  have c: "calculateWinner (board s1) = Inr None" unfolding s1_def by code_simp
  have m: "\<not> (mode s1 = Pvc \<and> \<not> isXNext s1 \<and> \<not> False)" unfolding s1_def by code_simp
  have x: "\<not> isXNext s1" unfolding s1_def by code_simp
  note T = handleCellClick_frame [OF w k]
  have 1: "handleCellClick 0 0 False s1 = Returned s1"
    by (rule T [THEN conjunct1, rule_format]) (intro conjI g0 o)
  have 2: "state_of (handleCellClick 5 0 False s1) = s1"
    by (rule T [THEN conjunct2, THEN conjunct1, rule_format]) simp
  have "\<exists>s'. handleCellClick 1 1 False s1 = Returned s' \<and>
                  wf_board (board s') \<and>
                  cell_of (board s') (1, 1) = Some (if isXNext s1 then MarkX else MarkO) \<and>
                  (\<forall>p. in_grid p \<and> p \<noteq> (1, 1) \<longrightarrow> cell_of (board s') p = cell_of (board s1) p) \<and>
                  take (nat (step s1) + 1) (history s') = take (nat (step s1) + 1) (history s1)"
    by (rule T [THEN conjunct2, THEN conjunct2, rule_format]) (intro conjI g1 e c m)
  then obtain s' where s': "handleCellClick 1 1 False s1 = Returned s'"
    "cell_of (board s') (1, 1) = Some (if isXNext s1 then MarkX else MarkO)"
    "\<forall>p. in_grid p \<and> p \<noteq> (1, 1) \<longrightarrow> cell_of (board s') p = cell_of (board s1) p"
    by blast
  from s'(2) x have a: "cell_of (board s') (1, 1) = Some MarkO" by simp
  from s'(3) g0 have b: "cell_of (board s') (0, 0) = cell_of (board s1) (0, 0)" by simp
  from s'(1) a b have 3: "\<exists>s'. handleCellClick 1 1 False s1 = Returned s' \<and>
         cell_of (board s') (1, 1) = Some MarkO \<and>
         cell_of (board s') (0, 0) = cell_of (board s1) (0, 0)" by blast
  show ?thesis using w g0 o 1 2 3 unfolding s1_def by blast
qed

text \<open>
  A column outside 0..2 in a row of the grid is not rejected: on the fresh board the
  click at (0, 3) appends an entry to the history and passes the turn.
\<close>

theorem handleCellClick_column_outside_counterexample:
  "\<not> in_grid (0, 3) \<and>
   handleCellClick 0 3 False init_state =
     Returned (init_state\<lparr>history := [initial_entry,
         \<lparr>e_board = createEmptyBoard, e_move = Some (0, 3), e_player = Some MarkX\<rparr>],
       step := 1, isXNext := False\<rparr>) \<and>
   state_of (handleCellClick 0 3 False init_state) \<noteq> init_state"
proof -
  have "\<not> in_grid (0, 3)" by (simp add: in_grid_def)
  moreover have "handleCellClick 0 3 False init_state =
     Returned (init_state\<lparr>history := [initial_entry,
         \<lparr>e_board = createEmptyBoard, e_move = Some (0, 3), e_player = Some MarkX\<rparr>],
       step := 1, isXNext := False\<rparr>)" by code_simp
  moreover have "state_of (handleCellClick 0 3 False init_state) \<noteq> init_state" by code_simp
  ultimately show ?thesis by blast
qed

text \<open>
  In general: on a 3 by 3 board, in a game that is not over and when it is the clicker's
  turn, a click in a row of the grid at a column outside it is accepted and leaves the
  board as it was.
\<close>

lemma handleCellClick_column_outside:
  assumes "wf_board (board s)" "0 \<le> row" "row < 3" "\<not> (0 \<le> col \<and> col < 3)"
    "calculateWinner (board s) = Inr None" "\<not> (mode s = Pvc \<and> \<not> isXNext s \<and> \<not> cm)"
  shows "handleCellClick row col cm s =
     Returned (s\<lparr>history := js_slice0 (history s) (step s + 1) @
          [\<lparr>e_board = board s, e_move = Some (row, col),
            e_player = Some (if isXNext s then MarkX else MarkO)\<rparr>],
        step := int (length (js_slice0 (history s) (step s + 1))),
        isXNext := \<not> isXNext s\<rparr>)"
proof -
  from assms(1,2,3) have "length (board s ! nat row) = 3" by (intro wf_board_row) simp_all
  with assms(1-4) have rd: "read_cell (board s) row col = Inr None"
    by (auto simp add: read_cell_def js_index_def wf_board_def)
  have "\<not> in_grid (row, col)" using assms(4) by (simp add: in_grid_def)
  then have "place (board s) row col (if isXNext s then MarkX else MarkO) = board s"
    by (rule place_outside [OF assms(1)])
  then show ?thesis
    by (simp add: handleCellClick_accepted [OF assms(5) rd assms(6)])
qed

section \<open>Jumps\<close>

lemma jumpTo_valid:
  assumes "0 \<le> k" "k < int (length (history s))"
  shows "jumpTo k s =
     Returned (s\<lparr>step := k, board := e_board (history s ! nat k), isXNext := even k\<rparr>)"
  using assms by (simp add: jumpTo_def js_index_def js_rem_2)

text \<open>
  Claim C4, as the code has it. For an index that is no position of the history,
  \<^verbatim>\<open>jumpTo\<close> fails (a TypeError is thrown) with the board, the turn, the history and the
  mode as they were, but with the cursor already set to the index given.
\<close>

theorem jumpTo_out_of_range:
  assumes "\<not> (0 \<le> k \<and> k < int (length (history s)))"
  shows "jumpTo k s = Threw TypeError (s\<lparr>step := k\<rparr>)"
  using assms by (auto simp add: jumpTo_def js_index_def)

theorem jumpTo_out_of_range_witness:
  "\<not> (0 \<le> (-1 :: int) \<and> (-1) < int (length (history init_state))) \<and>
   jumpTo (-1) init_state = Threw TypeError (init_state\<lparr>step := -1\<rparr>)"
  using jumpTo_out_of_range [of "-1" init_state] by simp

text \<open>The cursor does not stay: after the failed jump to 5 from the initial state it is 5.\<close>

theorem jumpTo_out_of_range_counterexample:
  "\<not> (0 \<le> (5 :: int) \<and> 5 < int (length (history init_state))) \<and>
   step init_state = 0 \<and>
   step (state_of (jumpTo 5 init_state)) = 5 \<and>
   state_of (jumpTo 5 init_state) \<noteq> init_state"
proof -
  have "\<not> (0 \<le> (5 :: int) \<and> 5 < int (length (history init_state)))" by code_simp
  moreover have "step init_state = 0" by code_simp
  moreover have "step (state_of (jumpTo 5 init_state)) = 5" by code_simp
  moreover have "state_of (jumpTo 5 init_state) \<noteq> init_state" by code_simp
  ultimately show ?thesis by blast
qed

text \<open>
  Claim C7. For an index \<open>k\<close> of the history, \<^verbatim>\<open>jumpTo(k)\<close> returns with the history as it
  was (same length, same entries), the cursor at \<open>k\<close>, and X to move exactly when \<open>k\<close> is
  even (so O when \<open>k\<close> is odd).
\<close>

theorem jumpTo_keeps_history:
  assumes "0 \<le> k" "k < int (length (history s))"
  shows "\<exists>s'. jumpTo k s = Returned s' \<and>
           history s' = history s \<and> length (history s') = length (history s) \<and>
           step s' = k \<and> isXNext s' = even k \<and> (\<not> isXNext s') = odd k"
  using jumpTo_valid [OF assms] by simp

theorem jumpTo_keeps_history_witness:
  "0 \<le> (1 :: int) \<and>
   1 < int (length (history (state_of (handleCellClick 1 1 False (state_of (handleCellClick 0 0 False init_state)))))) \<and>
   (\<exists>s'. jumpTo 1 (state_of (handleCellClick 1 1 False (state_of (handleCellClick 0 0 False init_state)))) = Returned s' \<and>
      history s' = history (state_of (handleCellClick 1 1 False (state_of (handleCellClick 0 0 False init_state)))) \<and>
      step s' = 1 \<and> \<not> isXNext s')"
proof -
  define s2 where "s2 = state_of (handleCellClick 1 1 False (state_of (handleCellClick 0 0 False init_state)))"
  have a: "0 \<le> (1 :: int)" by simp
  have b: "1 < int (length (history s2))" unfolding s2_def by code_simp
  from jumpTo_keeps_history [OF a b]
  have "\<exists>s'. jumpTo 1 s2 = Returned s' \<and> history s' = history s2 \<and> step s' = 1 \<and> \<not> isXNext s'"
    by auto
  with a b show ?thesis unfolding s2_def by blast
qed

section \<open>The invariant of the session\<close>

lemma session_inv_init: "session_inv init_state"
  by (simp add: session_inv_def init_state_def initial_entry_def wf_createEmptyBoard)

lemma session_inv_reset: "session_inv (handleReset s)"
  by (simp add: session_inv_def handleReset_def initial_entry_def wf_createEmptyBoard)

lemma session_inv_mode: "session_inv (handleModeChange m s)"
  by (simp add: handleModeChange_def session_inv_reset)

lemma session_inv_flags:
  "session_inv (s\<lparr>error := e\<rparr>) = session_inv s"
  "session_inv (s\<lparr>aiThinking := b\<rparr>) = session_inv s"
  by (simp_all add: session_inv_def)

lemma session_inv_wf:
  assumes "session_inv s"
  shows "wf_board (board s)"
proof -
  from assms have "nat (step s) < length (history s)"
    and "\<forall>n<length (history s). wf_board (e_board (history s ! n))"
    and "board s = e_board (history s ! nat (step s))"
    by (auto simp add: session_inv_def list_all_length)
  then show ?thesis by simp
qed

lemma list_all_take: "list_all P xs \<Longrightarrow> list_all P (take n xs)"
  by (auto simp add: list_all_iff dest: in_set_takeD)

lemma session_inv_jump:
  assumes "session_inv s" "0 \<le> k" "k < int (length (history s))"
  shows "session_inv (state_of (jumpTo k s))"
  using assms by (simp add: jumpTo_valid session_inv_def)

lemma session_inv_click:
  assumes "session_inv s"
  shows "session_inv (state_of (handleCellClick row col cm s))"
proof (cases "state_of (handleCellClick row col cm s) = s")
  case True
  with assms show ?thesis by simp
next
  case False
  let ?p = "if isXNext s then MarkX else MarkO"
  let ?e = "\<lparr>e_board = place (board s) row col ?p, e_move = Some (row, col), e_player = Some ?p\<rparr>"
  from assms have k: "0 \<le> step s" "step s < int (length (history s))"
    by (simp_all add: session_inv_def)
  from False have acc: "calculateWinner (board s) = Inr None" "read_cell (board s) row col = Inr None"
    "\<not> (mode s = Pvc \<and> \<not> isXNext s \<and> \<not> cm)"
    using handleCellClick_unchanged_or_accepted [of row col cm s] by auto
  have len: "length (take (nat (step s) + 1) (history s)) = nat (step s) + 1"
    using k by simp
  have res: "state_of (handleCellClick row col cm s) =
      s\<lparr>board := place (board s) row col ?p,
        history := take (nat (step s) + 1) (history s) @ [?e],
        step := step s + 1, isXNext := \<not> isXNext s\<rparr>"
    using k len by (simp add: handleCellClick_accepted [OF acc] js_slice0_inv)
  have h0: "(take (nat (step s) + 1) (history s) @ [?e]) ! 0 = history s ! 0"
    using k by (simp add: nth_append)
  have hk: "(take (nat (step s) + 1) (history s) @ [?e]) ! nat (step s + 1) = ?e"
    using k len by (simp add: nth_append nat_add_distrib)
  have wf: "wf_board (place (board s) row col ?p)"
    using session_inv_wf [OF assms] by (rule wf_place)
  have all_wf: "list_all (\<lambda>e. wf_board (e_board e)) (take (nat (step s) + 1) (history s) @ [?e])"
    using assms wf by (simp add: session_inv_def list_all_take)
  have ne: "take (nat (step s) + 1) (history s) \<noteq> []" using k by auto
  have "tl (take (nat (step s) + 1) (history s) @ [?e]) = take (nat (step s)) (tl (history s)) @ [?e]"
    using ne by (simp add: tl_take)
  moreover have "list_all (\<lambda>e. e_move e \<noteq> None \<and> e_player e \<noteq> None) (take (nat (step s)) (tl (history s)) @ [?e])"
    using assms by (simp add: session_inv_def list_all_take)
  ultimately have all_mv: "list_all (\<lambda>e. e_move e \<noteq> None \<and> e_player e \<noteq> None)
      (tl (take (nat (step s) + 1) (history s) @ [?e]))" by simp
  have par: "(\<not> isXNext s) = even (step s + 1)" using assms by (simp add: session_inv_def)
  show ?thesis
    unfolding res session_inv_def
    using assms k h0 hk all_wf all_mv par
    by (simp add: session_inv_def del: nth_append_length take_Suc_conv_app_nth)
qed

lemma session_inv_fallback:
  assumes "session_inv s"
  shows "session_inv (state_of (ai_fallback s))"
  using assms by (simp add: ai_fallback_def session_inv_click split: sum.splits option.splits prod.splits)

lemma session_inv_try:
  assumes "session_inv s"
  shows "session_inv (state_of (ai_try mv s))"
  using assms
  by (simp add: ai_try_def session_inv_click session_inv_fallback
      split: move_value.splits sum.splits option.splits)

lemma session_inv_catch:
  assumes "session_inv s"
  shows "session_inv (state_of (ai_catch s))"
  using assms by (simp add: ai_catch_def session_inv_fallback session_inv_flags)

lemma session_inv_finish:
  assumes "session_inv (state_of r)"
  shows "session_inv (state_of (ai_finish r))"
  using assms by (cases r) (simp_all add: ai_finish_def session_inv_flags)

lemma session_inv_doAIMove:
  assumes "session_inv s"
  shows "session_inv (state_of (doAIMove a s))"
proof -
  let ?s1 = "s\<lparr>aiThinking := True, error := []\<rparr>"
  have s1: "session_inv ?s1" using assms by (simp add: session_inv_def)
  show ?thesis
  proof (cases a)
    case NoClient
    have "session_inv (state_of (ai_finish (handleCellClick i j True ?s1)))" for i j
      by (intro session_inv_finish session_inv_click s1)
    with s1 NoClient show ?thesis
      by (simp add: doAIMove_def Let_def split: sum.splits option.splits prod.splits)
  next
    case Rejected
    have "session_inv (state_of (ai_finish (ai_catch ?s1)))"
      by (intro session_inv_finish session_inv_catch s1)
    with Rejected show ?thesis by (simp add: doAIMove_def Let_def)
  next
    case (Got mv)
    have t: "session_inv (state_of (ai_try mv ?s1))" by (rule session_inv_try [OF s1])
    show ?thesis
    proof (cases "ai_try mv ?s1")
      case (Returned s2)
      with t have "session_inv (state_of (ai_finish (Returned s2)))"
        by (intro session_inv_finish) simp
      with Got Returned show ?thesis by (simp add: doAIMove_def Let_def)
    next
      case (Threw err s2)
      with t have "session_inv s2" by simp
      then have "session_inv (state_of (ai_finish (ai_catch s2)))"
        by (intro session_inv_finish session_inv_catch)
      with Got Threw show ?thesis by (simp add: doAIMove_def Let_def)
    qed
  qed
qed

lemma session_inv_effect:
  assumes "session_inv s"
  shows "session_inv (state_of (ai_effect a s))"
  using assms by (simp add: ai_effect_def session_inv_doAIMove split: sum.splits option.splits)

lemma reachable_inv: "reachable s \<Longrightarrow> session_inv s"
proof (induction rule: reachable.induct)
  case r_init
  show ?case by (rule session_inv_init)
next
  case (r_click s row col cm)
  then show ?case by (intro session_inv_click)
next
  case (r_ai s a)
  then show ?case by (intro session_inv_effect)
next
  case (r_jump s k)
  then show ?case by (intro session_inv_jump)
next
  case (r_reset s)
  show ?case by (rule session_inv_reset)
next
  case (r_mode s m)
  show ?case by (rule session_inv_mode)
qed

text \<open>
  Claim C9, as the code has it. In every reachable session state the history is not
  empty and its first entry is the initial one: the all-empty board, no move, and the
  player \<^verbatim>\<open>"X"\<close>. Every entry carries a player mark, and every entry after the first
  carries a move.
\<close>

theorem reachable_first_entry:
  assumes "reachable s"
  shows "history s \<noteq> [] \<and>
         history s ! 0 = \<lparr>e_board = createEmptyBoard, e_move = None, e_player = Some MarkX\<rparr> \<and>
         (\<forall>p. in_grid p \<longrightarrow> cell_of (e_board (history s ! 0)) p = None) \<and>
         (\<forall>i. i < length (history s) \<longrightarrow> e_player (history s ! i) \<noteq> None) \<and>
         (\<forall>i. 0 < i \<and> i < length (history s) \<longrightarrow> e_move (history s ! i) \<noteq> None)"
proof -
  from assms have inv: "session_inv s" by (rule reachable_inv)
  then have ne: "history s \<noteq> []" and h0: "history s ! 0 = initial_entry"
    and later: "list_all (\<lambda>e. e_move e \<noteq> None \<and> e_player e \<noteq> None) (tl (history s))"
    by (auto simp add: session_inv_def)
  have empty: "\<forall>p. in_grid p \<longrightarrow> cell_of createEmptyBoard p = None"
  proof (intro allI impI)
    fix p :: "int \<times> int" assume "in_grid p"
    then have "nat (fst p) < 3" "nat (snd p) < 3" by (auto simp add: in_grid_def)
    then show "cell_of createEmptyBoard p = None"
      by (simp add: cell_of_def createEmptyBoard_def)
  qed
  have tl_nth: "e_move (history s ! i) \<noteq> None \<and> e_player (history s ! i) \<noteq> None"
    if "0 < i" "i < length (history s)" for i
  proof -
    from that obtain j where j: "i = Suc j" by (cases i) auto
    with that have jl: "j < length (tl (history s))" by simp
    with later have "e_move (tl (history s) ! j) \<noteq> None \<and> e_player (tl (history s) ! j) \<noteq> None"
      by (simp add: list_all_length)
    moreover have "tl (history s) ! j = history s ! Suc j" using jl by (rule nth_tl)
    ultimately show ?thesis using j by simp
  qed
  have players: "\<forall>i. i < length (history s) \<longrightarrow> e_player (history s ! i) \<noteq> None"
  proof (intro allI impI)
    fix i assume "i < length (history s)"
    then show "e_player (history s ! i) \<noteq> None"
      using tl_nth [of i] h0 by (cases "i = 0") (simp_all add: initial_entry_def)
  qed
  from ne h0 empty players tl_nth show ?thesis by (simp add: initial_entry_def)
qed

theorem reachable_first_entry_witness:
  "reachable (state_of (handleCellClick 0 0 False init_state)) \<and>
   length (history (state_of (handleCellClick 0 0 False init_state))) = 2 \<and>
   history (state_of (handleCellClick 0 0 False init_state)) ! 0 =
     \<lparr>e_board = createEmptyBoard, e_move = None, e_player = Some MarkX\<rparr> \<and>
   e_player (history (state_of (handleCellClick 0 0 False init_state)) ! 1) \<noteq> None \<and>
   e_move (history (state_of (handleCellClick 0 0 False init_state)) ! 1) \<noteq> None"
proof -
  define s1 where "s1 = state_of (handleCellClick 0 0 False init_state)"
  have r: "reachable s1" unfolding s1_def by (intro r_click r_init)
  have n: "length (history s1) = 2" unfolding s1_def by code_simp
  note T = reachable_first_entry [OF r]
  from T have a: "history s1 ! 0 = \<lparr>e_board = createEmptyBoard, e_move = None, e_player = Some MarkX\<rparr>"
    by blast
  from T n have b: "e_player (history s1 ! 1) \<noteq> None" by simp
  from T n have c: "e_move (history s1 ! 1) \<noteq> None" by simp
  from r n a b c show ?thesis unfolding s1_def by blast
qed

text \<open>The first entry does record a player: \<^verbatim>\<open>"X"\<close>, from the start.\<close>

theorem initial_entry_player_counterexample:
  "reachable init_state \<and> e_player (history init_state ! 0) = Some MarkX \<and>
   e_player (history init_state ! 0) \<noteq> None"
proof -
  have "e_player (history init_state ! 0) = Some MarkX"
    by (simp add: init_state_def initial_entry_def)
  with r_init show ?thesis by simp
qed

text \<open>
  The jumps of \<open>reachable\<close> are to indices of the history. A jump to \<open>-1\<close> followed by
  a click leaves a history whose first entry is the click's.
\<close>

lemma first_entry_after_jump_outside:
  "history (state_of (handleCellClick 0 0 False (state_of (jumpTo (-1) init_state)))) =
     [\<lparr>e_board = [[Some MarkX, None, None], [None, None, None], [None, None, None]],
       e_move = Some (0, 0), e_player = Some MarkX\<rparr>]"
  by code_simp

text \<open>
  Claim C10. For an index \<open>k\<close> of the history, \<^verbatim>\<open>jumpTo(k)\<close> returns with the board stored
  in entry \<open>k\<close>. Hence, in a reachable state with cursor \<open>k\<close>, a click that goes through
  followed by \<^verbatim>\<open>jumpTo(k)\<close> gives back the board that was shown before the click.
\<close>

theorem jumpTo_restores_board:
  "(0 \<le> k \<and> k < int (length (history s)) \<longrightarrow>
      (\<exists>t. jumpTo k s = Returned t \<and> board t = e_board (history s ! nat k))) \<and>
   (reachable s \<and> handleCellClick row col cm s = Returned s' \<and> s' \<noteq> s \<longrightarrow>
      (\<exists>t. jumpTo (step s) s' = Returned t \<and> board t = board s))"
proof (intro conjI impI)
  assume "0 \<le> k \<and> k < int (length (history s))"
  then show "\<exists>t. jumpTo k s = Returned t \<and> board t = e_board (history s ! nat k)"
    by (simp add: jumpTo_valid)
next
  assume a: "reachable s \<and> handleCellClick row col cm s = Returned s' \<and> s' \<noteq> s"
  then have inv: "session_inv s" using reachable_inv by blast
  then have k: "0 \<le> step s" "step s < int (length (history s))"
    and b: "board s = e_board (history s ! nat (step s))"
    by (simp_all add: session_inv_def)
  let ?p = "if isXNext s then MarkX else MarkO"
  let ?e = "\<lparr>e_board = place (board s) row col ?p, e_move = Some (row, col), e_player = Some ?p\<rparr>"
  from a have h: "history s' = take (nat (step s) + 1) (history s) @ [?e]"
    using handleCellClick_result [OF k(1), of row col cm s'] by simp
  have len: "length (take (nat (step s) + 1) (history s)) = nat (step s) + 1"
    using k by simp
  have valid: "step s < int (length (history s'))" using h len k by simp
  have "history s' ! nat (step s) = history s ! nat (step s)"
    using h len by (simp add: nth_append del: take_Suc_conv_app_nth)
  with b have "e_board (history s' ! nat (step s)) = board s" by simp
  with jumpTo_valid [OF k(1) valid]
  show "\<exists>t. jumpTo (step s) s' = Returned t \<and> board t = board s" by simp
qed

theorem jumpTo_restores_board_witness:
  "reachable (state_of (handleCellClick 0 0 False init_state)) \<and>
   state_of (handleCellClick 1 1 False (state_of (handleCellClick 0 0 False init_state))) \<noteq>
     state_of (handleCellClick 0 0 False init_state) \<and>
   step (state_of (handleCellClick 0 0 False init_state)) = 1 \<and>
   (\<exists>t. jumpTo 1 (state_of (handleCellClick 1 1 False (state_of (handleCellClick 0 0 False init_state)))) =
           Returned t \<and>
        board t = board (state_of (handleCellClick 0 0 False init_state))) \<and>
   (\<exists>t. jumpTo 0 (state_of (handleCellClick 0 0 False init_state)) = Returned t \<and>
        board t = e_board (history (state_of (handleCellClick 0 0 False init_state)) ! nat 0))"
proof -
  define s1 where "s1 = state_of (handleCellClick 0 0 False init_state)"
  define s2 where "s2 = state_of (handleCellClick 1 1 False s1)"
  have r: "reachable s1" unfolding s1_def by (intro r_click r_init)
  have c: "handleCellClick 1 1 False s1 = Returned s2" unfolding s2_def s1_def by code_simp
  have d: "s2 \<noteq> s1" unfolding s2_def s1_def by code_simp
  have st: "step s1 = 1" unfolding s1_def by code_simp
  have v: "0 \<le> (0 :: int) \<and> 0 < int (length (history s1))" unfolding s1_def by code_simp
  have "\<exists>t. jumpTo (step s1) s2 = Returned t \<and> board t = board s1"
    by (rule jumpTo_restores_board
          [where s = s1 and row = 1 and col = 1 and cm = False and s' = s2,
           THEN conjunct2, rule_format])
      (intro conjI r c d)
  with st have 1: "\<exists>t. jumpTo 1 s2 = Returned t \<and> board t = board s1" by simp
  have 2: "\<exists>t. jumpTo 0 s1 = Returned t \<and> board t = e_board (history s1 ! nat 0)"
    by (rule jumpTo_restores_board [THEN conjunct1, rule_format]) (rule v)
  from r d st 1 2 show ?thesis unfolding s2_def s1_def by blast
qed

section \<open>The computer's turn\<close>


section \<open>The regular expression\<close>











section \<open>Parsing the matched text\<close>










section \<open>The reply parser\<close>








end
